theory Spec2Isabelle
  imports Complex_Main "HOL-Library.Log_Nat"
begin


section \<open>Strings and the tokenizer\<close>

text \<open>
  A Python \<^verbatim>\<open>str\<close> is modelled as a \<^typ>\<open>string\<close> whose characters are the code points
  below 256 (ASCII and Latin-1), the range of \<^typ>\<open>char\<close>. On that range the three
  built-ins that \<^verbatim>\<open>tokenize\<close> calls are total functions of the code point:
  \<^item> \<^verbatim>\<open>str.lower\<close> maps A-Z and the Latin-1 capitals U+00C0..U+00DE (U+00D7 apart) to
    the code point 32 higher and leaves every other character alone;
  \<^item> \<^verbatim>\<open>\s\<close> of a \<^verbatim>\<open>str\<close> pattern and \<^verbatim>\<open>str.split()\<close> share one notion of whitespace:
    U+0009..U+000D, U+001C..U+0020, U+0085 and U+00A0.
\<close>

definition py_isspace :: "char \<Rightarrow> bool" where
  "py_isspace c = (of_char c \<in> {9, 10, 11, 12, 13, 28, 29, 30, 31, 32, 133, 160 :: nat})"

definition py_lower_char :: "char \<Rightarrow> char" where
  "py_lower_char c =
     (let n = of_char c :: nat in
      if (65 \<le> n \<and> n \<le> 90) \<or> (192 \<le> n \<and> n \<le> 222 \<and> n \<noteq> 215)
      then char_of (n + 32) else c)"

definition py_lower :: "string \<Rightarrow> string" where
  "py_lower s = map py_lower_char s"

text \<open>The character class \<^verbatim>\<open>[a-z0-9\s]\<close>, whose complement \<^verbatim>\<open>re.sub\<close> replaces.\<close>

definition is_ascii_lower :: "char \<Rightarrow> bool" where
  "is_ascii_lower c = (97 \<le> (of_char c :: nat) \<and> (of_char c :: nat) \<le> 122)"

definition is_ascii_digit :: "char \<Rightarrow> bool" where
  "is_ascii_digit c = (48 \<le> (of_char c :: nat) \<and> (of_char c :: nat) \<le> 57)"

definition re_keeps :: "char \<Rightarrow> bool" where
  "re_keeps c = (is_ascii_lower c \<or> is_ascii_digit c \<or> py_isspace c)"

definition re_sub_space :: "string \<Rightarrow> string" where
  "re_sub_space s = map (\<lambda>c. if re_keeps c then c else CHR '' '') s"

text \<open>
  \<^verbatim>\<open>str.split()\<close> with no argument: the maximal runs of characters that are not
  whitespace, in order. \<open>split_from cur s\<close> scans \<open>s\<close> with the fragment \<open>cur\<close> read so
  far.
\<close>

fun split_from :: "string \<Rightarrow> string \<Rightarrow> string list" where
  "split_from cur [] = (if cur = [] then [] else [cur])"
| "split_from cur (c # cs) =
     (if py_isspace c
      then (if cur = [] then split_from [] cs else cur # split_from [] cs)
      else split_from (cur @ [c]) cs)"

definition py_split :: "string \<Rightarrow> string list" where
  "py_split s = split_from [] s"

definition STOPWORDS :: "string set" where
  "STOPWORDS =
     {''the'', ''a'', ''an'', ''and'', ''or'', ''but'', ''in'', ''on'', ''at'', ''to'', ''for'',
      ''of'', ''with'', ''by'', ''from'', ''is'', ''are'', ''am'', ''be'', ''been'', ''being'',
      ''that'', ''this'', ''these'', ''those'', ''i'', ''you'', ''he'', ''she'', ''it'', ''we'',
      ''they''}"

definition tokenize :: "string \<Rightarrow> string list" where
  "tokenize text =
     (let text1 = py_lower text;
          text2 = re_sub_space text1;
          tokens = py_split text2
      in filter (\<lambda>t. t \<noteq> [] \<and> t \<notin> STOPWORDS) tokens)"

section \<open>Python numbers\<close>

text \<open>
  A Python \<^verbatim>\<open>int\<close> is an \<^typ>\<open>int\<close>. A Python \<^verbatim>\<open>float\<close> is an IEEE 754 binary64
  value, modelled by its exact rational value (the sign of a zero is not kept) or one
  of the three special values. Every arithmetic result is the exact result rounded to
  the nearest binary64 value, ties to even.
\<close>

datatype pyfloat = Finite rat | PosInf | NegInf | NaN

datatype pynum = PInt int | PFloat pyfloat

datatype py_error =
  AttributeError | TypeError | OverflowError | ZeroDivisionError | JSONDecodeError

definition pow2 :: "int \<Rightarrow> rat" where
  "pow2 e = (if 0 \<le> e then 2 ^ nat e else 1 / 2 ^ nat (- e))"

text \<open>\<open>ilog2 x\<close> is the integer \<open>e\<close> with \<open>2^e \<le> x < 2^(e+1)\<close>, for a positive \<open>x\<close>.\<close>

definition ilog2 :: "rat \<Rightarrow> int" where
  "ilog2 x =
     (let (p, q) = quotient_of x; d = bitlen p - bitlen q
      in if pow2 d \<le> x then d else d - 1)"

definition round_half_even :: "rat \<Rightarrow> int" where
  "round_half_even y =
     (let f = \<lfloor>y\<rfloor>; d = y - of_int f
      in if d < 1 / 2 then f else if 1 / 2 < d then f + 1
         else if even f then f else f + 1)"

text \<open>
  The binary64 value nearest to a rational: 53 significant bits, the smallest spacing
  \<open>2^-1074\<close> of the subnormal range, and no upper bound on the exponent (the callers
  test the result against \<open>2^1024\<close>).
\<close>

definition nearest_double :: "rat \<Rightarrow> rat" where
  "nearest_double x =
     (if x = 0 then 0
      else let e = ilog2 \<bar>x\<bar>; q = max (e - 52) (- 1074)
           in of_int (round_half_even (x / pow2 q)) * pow2 q)"

definition double_overflows :: "rat \<Rightarrow> bool" where
  "double_overflows y = (2 ^ 1024 \<le> \<bar>y\<bar>)"

text \<open>A float operation of the hardware: an overflow gives an infinity.\<close>

definition to_double :: "rat \<Rightarrow> pyfloat" where
  "to_double x =
     (let y = nearest_double x
      in if double_overflows y then (if 0 < y then PosInf else NegInf) else Finite y)"

text \<open>Converting an \<^verbatim>\<open>int\<close> to a \<^verbatim>\<open>float\<close> raises \<^verbatim>\<open>OverflowError\<close> instead; the
  result is finite.\<close>

definition int_to_float :: "int \<Rightarrow> py_error + rat" where
  "int_to_float i =
     (let y = nearest_double (of_int i)
      in if double_overflows y then Inl OverflowError else Inr y)"

fun float_add :: "pyfloat \<Rightarrow> pyfloat \<Rightarrow> pyfloat" where
  "float_add (Finite a) (Finite b) = to_double (a + b)"
| "float_add NaN _ = NaN"
| "float_add _ NaN = NaN"
| "float_add PosInf NegInf = NaN"
| "float_add NegInf PosInf = NaN"
| "float_add PosInf _ = PosInf"
| "float_add NegInf _ = NegInf"
| "float_add (Finite a) PosInf = PosInf"
| "float_add (Finite a) NegInf = NegInf"

text \<open>\<^verbatim>\<open>x / d\<close> for a float \<open>x\<close> and a finite float \<open>d\<close>.\<close>

fun float_div :: "pyfloat \<Rightarrow> rat \<Rightarrow> py_error + pyfloat" where
  "float_div x d =
     (if d = 0 then Inl ZeroDivisionError
      else case x of
        Finite a \<Rightarrow> Inr (to_double (a / d))
      | PosInf \<Rightarrow> Inr (if 0 < d then PosInf else NegInf)
      | NegInf \<Rightarrow> Inr (if 0 < d then NegInf else PosInf)
      | NaN \<Rightarrow> Inr NaN)"

text \<open>
  \<^verbatim>\<open>a / n\<close> for a number \<open>a\<close> and the \<^verbatim>\<open>int\<close> \<open>n\<close>. The quotient of two ints is the
  exact quotient rounded once; it raises when it is too large for a float.
\<close>

definition py_truediv :: "pynum \<Rightarrow> int \<Rightarrow> py_error + pyfloat" where
  "py_truediv a n =
     (case a of
        PInt i \<Rightarrow>
          if n = 0 then Inl ZeroDivisionError
          else let y = nearest_double (of_int i / of_int n)
               in if double_overflows y then Inl OverflowError else Inr (Finite y)
      | PFloat x \<Rightarrow>
          (case int_to_float n of
             Inl e \<Rightarrow> Inl e
           | Inr d \<Rightarrow> float_div x d))"

text \<open>
  \<^verbatim>\<open>round(x, 2)\<close> for a float: the decimal with two digits after the point nearest to
  the exact value of \<open>x\<close> (ties to even), converted back to the nearest float.
\<close>

definition round_2dp :: "rat \<Rightarrow> rat" where
  "round_2dp x = of_int (round_half_even (x * 100)) / 100"

definition py_round2 :: "pyfloat \<Rightarrow> py_error + pyfloat" where
  "py_round2 x =
     (case x of
        Finite a \<Rightarrow>
          (let y = nearest_double (round_2dp a)
           in if double_overflows y then Inl OverflowError else Inr (Finite y))
      | _ \<Rightarrow> Inr x)"

section \<open>Decoded records\<close>

text \<open>
  What \<^verbatim>\<open>json.loads\<close> returns. A \<^verbatim>\<open>dict\<close> is the list of its items, looked up by key;
  a float is finite (the decoder's \<^verbatim>\<open>NaN\<close> and \<^verbatim>\<open>Infinity\<close> are left out).
\<close>

datatype json =
    JNull
  | JBool bool
  | JInt int
  | JFloat rat
  | JStr string
  | JList "json list"
  | JObj "(string \<times> json) list"

fun truthy :: "json \<Rightarrow> bool" where
  "truthy JNull = False"
| "truthy (JBool b) = b"
| "truthy (JInt i) = (i \<noteq> 0)"
| "truthy (JFloat f) = (f \<noteq> 0)"
| "truthy (JStr s) = (s \<noteq> [])"
| "truthy (JList xs) = (xs \<noteq> [])"
| "truthy (JObj kvs) = (kvs \<noteq> [])"

text \<open>\<^verbatim>\<open>d.get(k, default)\<close> on a dict.\<close>

definition py_get :: "(string \<times> json) list \<Rightarrow> string \<Rightarrow> json \<Rightarrow> json" where
  "py_get kvs k dflt = (case map_of kvs k of None \<Rightarrow> dflt | Some v \<Rightarrow> v)"

text \<open>
  A value used as a dict key or a set element is hashed first: a list or a dict
  raises \<^verbatim>\<open>TypeError\<close> (\<open>None\<close> here). Numbers that compare equal (\<^verbatim>\<open>1\<close>, \<^verbatim>\<open>1.0\<close>, \<^verbatim>\<open>True\<close>)
  are one key.
\<close>

datatype pykey = KStr string | KNum rat | KNone

fun key_of :: "json \<Rightarrow> pykey option" where
  "key_of (JStr s) = Some (KStr s)"
| "key_of (JInt i) = Some (KNum (of_int i))"
| "key_of (JFloat f) = Some (KNum f)"
| "key_of (JBool b) = Some (KNum (if b then 1 else 0))"
| "key_of JNull = Some KNone"
| "key_of (JList xs) = None"
| "key_of (JObj kvs) = None"

text \<open>\<^verbatim>\<open>k in x\<close> for a string \<open>k\<close>: a key of a dict, an element of a list, a substring of a
  string; the other values are not containers.\<close>

fun py_substring :: "string \<Rightarrow> string \<Rightarrow> bool" where
  "py_substring k [] = (k = [])"
| "py_substring k (c # cs) = (take (length k) (c # cs) = k \<or> py_substring k cs)"

fun py_contains :: "json \<Rightarrow> string \<Rightarrow> py_error + bool" where
  "py_contains (JObj kvs) k = Inr (map_of kvs k \<noteq> None)"
| "py_contains (JList xs) k = Inr (JStr k \<in> set xs)"
| "py_contains (JStr s) k = Inr (py_substring k s)"
| "py_contains _ k = Inl TypeError"

text \<open>\<^verbatim>\<open>x[k]\<close> for a string \<open>k\<close> that \<open>x\<close> contains: only a dict can be indexed by it.\<close>

fun py_getitem :: "json \<Rightarrow> string \<Rightarrow> py_error + json" where
  "py_getitem (JObj kvs) k = Inr (py_get kvs k JNull)"
| "py_getitem _ k = Inl TypeError"

section \<open>The index builder\<close>

text \<open>
  The five structures of \<^verbatim>\<open>IndexBuilder.__init__\<close>. A \<^verbatim>\<open>defaultdict\<close> is a map whose
  missing keys are created on first access; a Python \<^verbatim>\<open>set\<close> is a set.
\<close>

type_synonym pos_index = "string \<rightharpoonup> (pykey \<rightharpoonup> nat list)"
type_synonym cat_index = "string \<rightharpoonup> pykey set"

record review_stats =
  total_reviews :: nat
  mean_mark :: pynum
  last_rating :: json

record index_state =
  title_index :: pos_index
  description_index :: pos_index
  brand_index :: cat_index
  origin_index :: cat_index
  reviews_index :: "pykey \<rightharpoonup> review_stats"

definition init_state :: index_state where
  "init_state =
     \<lparr>title_index = Map.empty, description_index = Map.empty, brand_index = Map.empty,
      origin_index = Map.empty, reviews_index = Map.empty\<rparr>"

text \<open>
  A statement that may raise returns the structure as the exception leaves it, and the
  exception (\<open>None\<close> when it returns normally).
\<close>

type_synonym 's outcome = "'s \<times> py_error option"

definition and_then :: "'s outcome \<Rightarrow> ('s \<Rightarrow> 's outcome) \<Rightarrow> 's outcome" where
  "and_then r f = (case r of (s, None) \<Rightarrow> f s | (s, Some e) \<Rightarrow> (s, Some e))"

text \<open>
  The loop of \<^verbatim>\<open>_index_text\<close>, \<^verbatim>\<open>index[token][url].append(position)\<close>: \<^verbatim>\<open>index[token]\<close>
  creates the entry of the token, then \<^verbatim>\<open>[url]\<close> hashes the url and creates its list.
\<close>

fun index_tokens :: "nat \<Rightarrow> string list \<Rightarrow> json \<Rightarrow> pos_index \<Rightarrow> pos_index outcome" where
  "index_tokens position [] url index = (index, None)"
| "index_tokens position (token # rest) url index =
     (if token \<noteq> [] then
        (let urls = (case index token of None \<Rightarrow> Map.empty | Some m \<Rightarrow> m) in
         case key_of url of
           None \<Rightarrow> (index(token \<mapsto> urls), Some TypeError)
         | Some k \<Rightarrow>
             (let positions = (case urls k of None \<Rightarrow> [] | Some ps \<Rightarrow> ps)
              in index_tokens (Suc position) rest url
                   (index(token \<mapsto> urls(k \<mapsto> positions @ [position])))))
      else index_tokens (Suc position) rest url index)"

text \<open>\<^verbatim>\<open>tokenize\<close> calls \<^verbatim>\<open>text.lower()\<close>, which only a string has.\<close>

definition index_text :: "json \<Rightarrow> json \<Rightarrow> pos_index \<Rightarrow> pos_index outcome" where
  "index_text text url index =
     (case text of
        JStr s \<Rightarrow> index_tokens 0 (tokenize s) url index
      | _ \<Rightarrow> (index, Some AttributeError))"

text \<open>The loop \<^verbatim>\<open>for token in tokens: index[token].add(url)\<close> of brand and origin.\<close>

fun add_tokens :: "string list \<Rightarrow> json \<Rightarrow> cat_index \<Rightarrow> cat_index outcome" where
  "add_tokens [] url index = (index, None)"
| "add_tokens (token # rest) url index =
     (let urls = (case index token of None \<Rightarrow> {} | Some s \<Rightarrow> s) in
      case key_of url of
        None \<Rightarrow> (index(token \<mapsto> urls), Some TypeError)
      | Some k \<Rightarrow> add_tokens rest url (index(token \<mapsto> insert k urls)))"

text \<open>
  \<^verbatim>\<open>if name in features: v = features[name]; if isinstance(v, str) and v: ...\<close>, for
  \<open>name\<close> one of \<^verbatim>\<open>'brand'\<close> and \<^verbatim>\<open>'made in'\<close>.
\<close>

definition index_feature :: "string \<Rightarrow> json \<Rightarrow> json \<Rightarrow> cat_index \<Rightarrow> cat_index outcome" where
  "index_feature name features url index =
     (case py_contains features name of
        Inl e \<Rightarrow> (index, Some e)
      | Inr False \<Rightarrow> (index, None)
      | Inr True \<Rightarrow>
          (case py_getitem features name of
             Inl e \<Rightarrow> (index, Some e)
           | Inr (JStr s) \<Rightarrow> if s \<noteq> [] then add_tokens (tokenize s) url index else (index, None)
           | Inr _ \<Rightarrow> (index, None)))"

subsection \<open>Reviews\<close>

text \<open>\<^verbatim>\<open>acc + item\<close>, one step of \<^verbatim>\<open>sum\<close>: ints and bools add exactly, a float makes the
  sum a float, anything else is a \<^verbatim>\<open>TypeError\<close>.\<close>

fun py_add :: "pynum \<Rightarrow> json \<Rightarrow> py_error + pynum" where
  "py_add (PInt a) (JInt i) = Inr (PInt (a + i))"
| "py_add (PInt a) (JBool b) = Inr (PInt (a + (if b then 1 else 0)))"
| "py_add (PInt a) (JFloat f) =
     (case int_to_float a of Inl e \<Rightarrow> Inl e | Inr x \<Rightarrow> Inr (PFloat (to_double (x + f))))"
| "py_add (PFloat x) (JInt i) =
     (case int_to_float i of Inl e \<Rightarrow> Inl e | Inr y \<Rightarrow> Inr (PFloat (float_add x (Finite y))))"
| "py_add (PFloat x) (JBool b) = Inr (PFloat (float_add x (Finite (if b then 1 else 0))))"
| "py_add (PFloat x) (JFloat f) = Inr (PFloat (float_add x (Finite f)))"
| "py_add _ _ = Inl TypeError"

fun py_sum_from :: "pynum \<Rightarrow> json list \<Rightarrow> py_error + pynum" where
  "py_sum_from acc [] = Inr acc"
| "py_sum_from acc (x # xs) =
     (case py_add acc x of Inl e \<Rightarrow> Inl e | Inr acc' \<Rightarrow> py_sum_from acc' xs)"

definition py_sum :: "json list \<Rightarrow> py_error + pynum" where
  "py_sum xs = py_sum_from (PInt 0) xs"

text \<open>\<^verbatim>\<open>[review.get('rating', 0) for review in reviews]\<close> over a list: a review that is
  not a dict has no \<^verbatim>\<open>get\<close>.\<close>

fun get_ratings :: "json list \<Rightarrow> py_error + json list" where
  "get_ratings [] = Inr []"
| "get_ratings (review # rest) =
     (case review of
        JObj kvs \<Rightarrow>
          (case get_ratings rest of
             Inl e \<Rightarrow> Inl e
           | Inr rs \<Rightarrow> Inr (py_get kvs ''rating'' (JInt 0) # rs))
      | _ \<Rightarrow> Inl AttributeError)"

text \<open>
  The same comprehension over any truthy value: a dict or a string iterates over keys
  or characters, which are strings; a number is not iterable.
\<close>

fun ratings_of :: "json \<Rightarrow> py_error + json list" where
  "ratings_of (JList xs) = get_ratings xs"
| "ratings_of (JObj kvs) = Inl AttributeError"
| "ratings_of (JStr s) = Inl AttributeError"
| "ratings_of _ = Inl TypeError"

text \<open>\<^verbatim>\<open>round(sum(ratings) / len(ratings), 2) if ratings else 0\<close>.\<close>

definition mean_of :: "json list \<Rightarrow> py_error + pynum" where
  "mean_of ratings =
     (if ratings \<noteq> [] then
        (case py_sum ratings of
           Inl e \<Rightarrow> Inl e
         | Inr s \<Rightarrow>
             (case py_truediv s (int (length ratings)) of
                Inl e \<Rightarrow> Inl e
              | Inr q \<Rightarrow> (case py_round2 q of Inl e \<Rightarrow> Inl e | Inr m \<Rightarrow> Inr (PFloat m))))
      else Inr (PInt 0))"

text \<open>The dict stored for a document, from its \<^verbatim>\<open>product_reviews\<close>.\<close>

definition aggregate :: "json \<Rightarrow> py_error + review_stats" where
  "aggregate reviews =
     (if truthy reviews then
        (case ratings_of reviews of
           Inl e \<Rightarrow> Inl e
         | Inr ratings \<Rightarrow>
             (case mean_of ratings of
                Inl e \<Rightarrow> Inl e
              | Inr m \<Rightarrow>
                  Inr \<lparr>total_reviews = length ratings, mean_mark = m,
                       last_rating = (if ratings \<noteq> [] then last ratings else JInt 0)\<rparr>))
      else Inr \<lparr>total_reviews = 0, mean_mark = PInt 0, last_rating = JInt 0\<rparr>)"

definition store_reviews ::
  "json \<Rightarrow> json \<Rightarrow> (pykey \<rightharpoonup> review_stats) \<Rightarrow> (pykey \<rightharpoonup> review_stats) outcome" where
  "store_reviews reviews url index =
     (case aggregate reviews of
        Inl e \<Rightarrow> (index, Some e)
      | Inr stats \<Rightarrow>
          (case key_of url of
             None \<Rightarrow> (index, Some TypeError)
           | Some k \<Rightarrow> (index(k \<mapsto> stats), None)))"

subsection \<open>One product\<close>

definition stage_title :: "(string \<times> json) list \<Rightarrow> json \<Rightarrow> index_state \<Rightarrow> index_state outcome" where
  "stage_title product url st =
     (let title = py_get product ''title'' (JStr []) in
      if truthy title then
        (case index_text title url (title_index st) of
           (index, r) \<Rightarrow> (st\<lparr>title_index := index\<rparr>, r))
      else (st, None))"

definition stage_description ::
  "(string \<times> json) list \<Rightarrow> json \<Rightarrow> index_state \<Rightarrow> index_state outcome" where
  "stage_description product url st =
     (let description = py_get product ''description'' (JStr []) in
      if truthy description then
        (case index_text description url (description_index st) of
           (index, r) \<Rightarrow> (st\<lparr>description_index := index\<rparr>, r))
      else (st, None))"

definition stage_brand :: "json \<Rightarrow> json \<Rightarrow> index_state \<Rightarrow> index_state outcome" where
  "stage_brand features url st =
     (case index_feature ''brand'' features url (brand_index st) of
        (index, r) \<Rightarrow> (st\<lparr>brand_index := index\<rparr>, r))"

definition stage_origin :: "json \<Rightarrow> json \<Rightarrow> index_state \<Rightarrow> index_state outcome" where
  "stage_origin features url st =
     (case index_feature ''made in'' features url (origin_index st) of
        (index, r) \<Rightarrow> (st\<lparr>origin_index := index\<rparr>, r))"

definition stage_reviews :: "(string \<times> json) list \<Rightarrow> json \<Rightarrow> index_state \<Rightarrow> index_state outcome" where
  "stage_reviews product url st =
     (case store_reviews (py_get product ''product_reviews'' (JList [])) url (reviews_index st) of
        (index, r) \<Rightarrow> (st\<lparr>reviews_index := index\<rparr>, r))"

text \<open>\<^verbatim>\<open>_process_product\<close>. A decoded line that is not a dict has no \<^verbatim>\<open>get\<close>.\<close>

definition process_product :: "index_state \<Rightarrow> json \<Rightarrow> index_state outcome" where
  "process_product st product =
     (case product of
        JObj kvs \<Rightarrow>
          (let url = py_get kvs ''url'' (JStr []) in
           if \<not> truthy url then (st, None)
           else
             (let features = py_get kvs ''product_features'' (JObj []) in
              and_then (and_then (and_then (and_then
                (stage_title kvs url st)
                (stage_description kvs url))
                (stage_brand features url))
                (stage_origin features url))
                (stage_reviews kvs url)))
      | _ \<Rightarrow> (st, Some AttributeError))"

subsection \<open>The pass over the file\<close>

text \<open>
  \<^verbatim>\<open>process_jsonl\<close>: a line is what \<^verbatim>\<open>json.loads\<close> made of it, \<open>None\<close> when it raised
  \<^verbatim>\<open>JSONDecodeError\<close>. Both handlers print the line number and go on; the printed
  lines are returned with the state.
\<close>

fun process_lines ::
  "nat \<Rightarrow> json option list \<Rightarrow> index_state \<Rightarrow> (nat \<times> py_error) list \<Rightarrow>
   index_state \<times> (nat \<times> py_error) list" where
  "process_lines line_num [] st errors = (st, errors)"
| "process_lines line_num (line # rest) st errors =
     (case line of
        None \<Rightarrow> process_lines (Suc line_num) rest st (errors @ [(line_num, JSONDecodeError)])
      | Some product \<Rightarrow>
          (case process_product st product of
             (st', None) \<Rightarrow> process_lines (Suc line_num) rest st' errors
           | (st', Some e) \<Rightarrow> process_lines (Suc line_num) rest st' (errors @ [(line_num, e)])))"

definition process_jsonl :: "index_state \<Rightarrow> json option list \<Rightarrow> index_state \<times> (nat \<times> py_error) list" where
  "process_jsonl st lines = process_lines 1 lines st []"

section \<open>The query resolver\<close>

text \<open>
  The index handed to \<^verbatim>\<open>search_title\<close> maps a token to its postings entry. The entry of
  a positional index (title, description) is a \<^verbatim>\<open>dict\<close> from document to positions; the
  entry of a categorical index (brand, origin) is a \<^verbatim>\<open>set\<close> of documents, a \<^verbatim>\<open>list\<close> once
  saved and loaded again. Only a \<^verbatim>\<open>dict\<close> has the method \<^verbatim>\<open>keys\<close>.
\<close>

datatype ('k, 'v) entry = EDict "'k \<rightharpoonup> 'v" | ESet "'k set"

text \<open>
  \<^verbatim>\<open>search_title\<close>. The result is built from Python sets and returned as a list in the
  set's order, which the language leaves open: it is modelled as the set. \<open>results\<close> is
  \<open>None\<close> until the first token is seen; \<^verbatim>\<open>index_dict[token].keys()\<close> raises
  \<^verbatim>\<open>AttributeError\<close> on an entry that is not a \<^verbatim>\<open>dict\<close>.
\<close>

fun search_tokens ::
  "'k set option \<Rightarrow> string list \<Rightarrow> (string \<rightharpoonup> ('k, 'v) entry) \<Rightarrow> py_error + 'k set" where
  "search_tokens results [] index_dict = Inr (case results of None \<Rightarrow> {} | Some r \<Rightarrow> r)"
| "search_tokens results (token # rest) index_dict =
     (case index_dict token of
        Some (EDict postings) \<Rightarrow>
          (let urls = dom postings
           in search_tokens (Some (case results of None \<Rightarrow> urls | Some r \<Rightarrow> r \<inter> urls))
                rest index_dict)
      | Some (ESet members) \<Rightarrow> Inl AttributeError
      | None \<Rightarrow> Inr {})"

definition search_title :: "string \<Rightarrow> (string \<rightharpoonup> ('k, 'v) entry) \<Rightarrow> py_error + 'k set" where
  "search_title query index_dict =
     (let tokens = tokenize query in
      if tokens = [] then Inr {} else search_tokens None tokens index_dict)"

section \<open>Notions of the specification\<close>

text \<open>A token in canonical form: not empty, ASCII lowercase letters and digits only.\<close>

definition canonical :: "string \<Rightarrow> bool" where
  "canonical t = (t \<noteq> [] \<and> list_all (\<lambda>c. is_ascii_lower c \<or> is_ascii_digit c) t)"

text \<open>
  Splitting on runs of whitespace as the specification words it: skip the whitespace,
  take the run of other characters up to the next whitespace, go on behind it.
\<close>

function spec_split :: "string \<Rightarrow> string list" where
  "spec_split s =
     (let r = dropWhile py_isspace s in
      if r = [] then []
      else takeWhile (\<lambda>c. \<not> py_isspace c) r # spec_split (dropWhile (\<lambda>c. \<not> py_isspace c) r))"
  by pat_completeness auto
termination
proof (relation "measure length")
  show "wf (measure length)" by simp
next
  fix s r :: string
  assume r: "r = dropWhile py_isspace s" and ne: "r \<noteq> []"
  from ne have "\<not> py_isspace (hd r)" unfolding r by (rule hd_dropWhile)
  with ne have "length (dropWhile (\<lambda>c. \<not> py_isspace c) r) < length r"
    by (cases r) (auto simp: le_imp_less_Suc length_dropWhile_le)
  also have "length r \<le> length s" unfolding r by (rule length_dropWhile_le)
  finally show "(dropWhile (\<lambda>c. \<not> py_isspace c) r, s) \<in> measure length" by simp
qed

text \<open>The positions stored for a token and a document (none when either is missing),
  and the zero-based positions at which a token occurs in a token list.\<close>

definition postings :: "pos_index \<Rightarrow> string \<Rightarrow> pykey \<Rightarrow> nat list" where
  "postings index t k =
     (case index t of None \<Rightarrow> [] | Some urls \<Rightarrow> (case urls k of None \<Rightarrow> [] | Some ps \<Rightarrow> ps))"

definition positions_of :: "string \<Rightarrow> string list \<Rightarrow> nat list" where
  "positions_of t ts = [i \<leftarrow> [0..<length ts]. ts ! i = t]"


text \<open>The token keys of the four indexes of a state.\<close>

definition token_keys :: "index_state \<Rightarrow> string set" where
  "token_keys st =
     dom (title_index st) \<union> dom (description_index st) \<union> dom (brand_index st)
       \<union> dom (origin_index st)"

section \<open>The tokenizer\<close>

declare spec_split.simps [simp del]

lemma py_lower_char_idem: "py_lower_char (py_lower_char c) = py_lower_char c"
  by (auto simp add: py_lower_char_def Let_def)

lemma py_lower_idem: "py_lower (py_lower s) = py_lower s"
  by (simp add: py_lower_def py_lower_char_idem)

lemma tokenize_lower: "tokenize (py_lower s) = tokenize s"
  by (simp add: tokenize_def py_lower_idem)

lemma alnum_not_space: "is_ascii_lower c \<or> is_ascii_digit c \<Longrightarrow> \<not> py_isspace c"
  by (auto simp: is_ascii_lower_def is_ascii_digit_def py_isspace_def)

lemma alnum_lower: "is_ascii_lower c \<or> is_ascii_digit c \<Longrightarrow> py_lower_char c = c"
  by (auto simp: is_ascii_lower_def is_ascii_digit_def py_lower_char_def Let_def)

lemma split_from_no_space:
  "list_all (\<lambda>c. \<not> py_isspace c) t \<Longrightarrow> split_from cur t = (if cur @ t = [] then [] else [cur @ t])"
  by (induction t arbitrary: cur) auto

lemma split_from_cur:
  "cur \<noteq> [] \<Longrightarrow> list_all (\<lambda>c. \<not> py_isspace c) cur \<Longrightarrow>
   split_from cur s = (takeWhile (\<lambda>c. \<not> py_isspace c) (cur @ s)) # split_from [] (dropWhile (\<lambda>c. \<not> py_isspace c) (cur @ s))"
proof (induction s arbitrary: cur)
  case Nil
  then show ?case by (simp add: list_all_iff takeWhile_eq_all_conv [THEN iffD2] dropWhile_eq_Nil_conv [THEN iffD2])
next
  case (Cons c cs)
  then show ?case by (auto simp: list_all_iff takeWhile_append dropWhile_append
      takeWhile_eq_all_conv [THEN iffD2] dropWhile_eq_Nil_conv [THEN iffD2])
qed

lemma split_from_Nil_step:
  "split_from [] (c # cs) =
     (if py_isspace c then split_from [] cs
      else takeWhile (\<lambda>c. \<not> py_isspace c) (c # cs) # split_from [] (dropWhile (\<lambda>c. \<not> py_isspace c) (c # cs)))"
  using split_from_cur [of "[c]" cs] by simp

lemma split_from_dropWhile: "split_from [] s = split_from [] (dropWhile py_isspace s)"
  by (induction s) auto

lemma py_split_spec: "py_split s = spec_split s"
proof (induction s rule: spec_split.induct)
  case (1 s)
  let ?r = "dropWhile py_isspace s"
  show ?case
  proof (cases "?r = []")
    case True
    have "py_split s = split_from [] ?r" unfolding py_split_def by (rule split_from_dropWhile)
    then have "py_split s = []" unfolding True by simp
    moreover have "spec_split s = []" using True by (subst spec_split.simps) (simp add: Let_def)
    ultimately show ?thesis by simp
  next
    case False
    then obtain c cs where rc: "?r = c # cs" by (cases ?r) auto
    from False have nsp: "\<not> py_isspace c" using hd_dropWhile [of py_isspace s] rc by simp
    have "py_split s = split_from [] ?r" unfolding py_split_def by (rule split_from_dropWhile)
    also have "\<dots> = takeWhile (\<lambda>c. \<not> py_isspace c) ?r # split_from [] (dropWhile (\<lambda>c. \<not> py_isspace c) ?r)"
      unfolding rc using nsp by (simp only: split_from_Nil_step if_False)
    also have "split_from [] (dropWhile (\<lambda>c. \<not> py_isspace c) ?r) = spec_split (dropWhile (\<lambda>c. \<not> py_isspace c) ?r)"
      using "1.IH" [OF refl False] by (simp add: py_split_def)
    finally show ?thesis using False by (subst spec_split.simps) (simp add: Let_def)
  qed
qed


lemma split_from_fragment:
  "list_all (\<lambda>c. \<not> py_isspace c) cur \<Longrightarrow> f \<in> set (split_from cur s) \<Longrightarrow>
   f \<noteq> [] \<and> list_all (\<lambda>c. \<not> py_isspace c) f \<and> set f \<subseteq> set cur \<union> set s"
proof (induction s arbitrary: cur)
  case Nil
  then show ?case by (auto split: if_splits)
next
  case (Cons c cs)
  show ?case
  proof (cases "py_isspace c")
    case True
    with Cons.prems have "f = cur \<and> cur \<noteq> [] \<or> f \<in> set (split_from [] cs)"
      by (auto split: if_splits)
    then show ?thesis
    proof
      assume "f = cur \<and> cur \<noteq> []"
      with Cons.prems(1) show ?thesis by auto
    next
      assume "f \<in> set (split_from [] cs)"
      from Cons.IH [OF _ this] show ?thesis by auto
    qed
  next
    case False
    with Cons.prems have f: "f \<in> set (split_from (cur @ [c]) cs)" by simp
    from Cons.prems(1) False have "list_all (\<lambda>c. \<not> py_isspace c) (cur @ [c])" by simp
    from Cons.IH [OF this f] show ?thesis by auto
  qed
qed

lemma py_split_fragment:
  "f \<in> set (py_split s) \<Longrightarrow> f \<noteq> [] \<and> list_all (\<lambda>c. \<not> py_isspace c) f \<and> set f \<subseteq> set s"
  using split_from_fragment [of "[]" f s] by (simp add: py_split_def)

lemma re_sub_space_keeps: "c \<in> set (re_sub_space s) \<Longrightarrow> re_keeps c"
  by (auto simp: re_sub_space_def re_keeps_def py_isspace_def)

lemma tokenize_token:
  assumes "t \<in> set (tokenize s)"
  shows "canonical t \<and> t \<notin> STOPWORDS"
proof -
  let ?x = "re_sub_space (py_lower s)"
  from assms have t: "t \<in> set (py_split ?x)" and ns: "t \<notin> STOPWORDS"
    by (auto simp: tokenize_def Let_def)
  from py_split_fragment [OF t]
  have ne: "t \<noteq> []" and sp: "list_all (\<lambda>c. \<not> py_isspace c) t" and sub: "set t \<subseteq> set ?x"
    by auto
  have "is_ascii_lower c \<or> is_ascii_digit c" if "c \<in> set t" for c
  proof -
    from that sub have "re_keeps c" by (auto dest: re_sub_space_keeps)
    moreover from that sp have "\<not> py_isspace c" by (simp add: list_all_iff)
    ultimately show ?thesis by (simp add: re_keeps_def)
  qed
  with ne ns show ?thesis by (simp add: canonical_def list_all_iff)
qed

lemma tokenize_canonical:
  assumes "canonical t"
  shows "tokenize t = (if t \<in> STOPWORDS then [] else [t])"
proof -
  from assms have ne: "t \<noteq> []" and al: "\<forall>c\<in>set t. is_ascii_lower c \<or> is_ascii_digit c"
    by (simp_all add: canonical_def list_all_iff)
  have low: "py_lower t = t"
    unfolding py_lower_def using al by (simp add: map_idI alnum_lower)
  have sub: "re_sub_space t = t"
    unfolding re_sub_space_def using al by (intro map_idI) (auto simp: re_keeps_def)
  have "list_all (\<lambda>c. \<not> py_isspace c) t"
    using al alnum_not_space by (auto simp: list_all_iff)
  then have "py_split t = [t]"
    using ne by (simp add: py_split_def split_from_no_space)
  then show ?thesis using ne by (simp add: tokenize_def low sub)
qed

lemma py_split_nonempty: "filter (\<lambda>t. t \<noteq> [] \<and> P t) (py_split s) = filter P (py_split s)"
  by (rule filter_cong) (auto dest: py_split_fragment)

lemma tokenize_spec:
  "tokenize s =
     filter (\<lambda>t. t \<notin> STOPWORDS)
       (spec_split (map (\<lambda>c. if is_ascii_lower c \<or> is_ascii_digit c \<or> py_isspace c then c else CHR '' '')
          (map py_lower_char s)))"
proof -
  have "tokenize s = filter (\<lambda>t. t \<notin> STOPWORDS) (py_split (re_sub_space (py_lower s)))"
    by (simp add: tokenize_def py_split_nonempty)
  then show ?thesis
    by (simp add: py_split_spec re_sub_space_def re_keeps_def py_lower_def)
qed

section \<open>The positional index\<close>

lemma positions_of_Cons:
  "positions_of t (x # xs) = (if x = t then [0] else []) @ map Suc (positions_of t xs)"
proof -
  have "[0..<length (x # xs)] = 0 # map Suc [0..<length xs]"
    by (simp add: upt_conv_Cons map_Suc_upt del: upt_Suc)
  then show ?thesis
    by (simp add: positions_of_def filter_map comp_def del: upt_Suc)
qed

lemma index_tokens_postings:
  assumes "key_of url = Some k" and "t \<noteq> []"
  shows "snd (index_tokens p ts url index) = None \<and>
         postings (fst (index_tokens p ts url index)) t k =
           postings index t k @ map (\<lambda>i. p + i) (positions_of t ts)"
  using assms
proof (induction ts arbitrary: p index)
  case Nil
  then show ?case by (simp add: positions_of_def)
next
  case (Cons x xs)
  show ?case
  proof (cases "x = []")
    case True
    with Cons show ?thesis by (simp add: positions_of_Cons comp_def)
  next
    case False
    let ?urls = "case index x of None \<Rightarrow> Map.empty | Some m \<Rightarrow> m"
    let ?ps = "case ?urls k of None \<Rightarrow> [] | Some ps \<Rightarrow> ps"
    let ?index' = "index(x \<mapsto> ?urls(k \<mapsto> ?ps @ [p]))"
    have step: "index_tokens p (x # xs) url index = index_tokens (Suc p) xs url ?index'"
      using False Cons.prems(1) by (simp add: Let_def)
    have post: "postings ?index' t k = postings index t k @ (if x = t then [p] else [])"
      by (auto simp: postings_def split: option.splits)
    have ih: "snd (index_tokens (Suc p) xs url ?index') = None \<and>
        postings (fst (index_tokens (Suc p) xs url ?index')) t k =
          postings ?index' t k @ map (\<lambda>i. Suc p + i) (positions_of t xs)"
      by (rule Cons.IH [OF Cons.prems])
    have "map (\<lambda>i. p + i) (positions_of t (x # xs)) =
            (if x = t then [p] else []) @ map (\<lambda>i. Suc p + i) (positions_of t xs)"
      by (simp add: positions_of_Cons comp_def)
    with ih show ?thesis unfolding step post by simp
  qed
qed

lemma index_tokens_other_state:
  "key_of url = Some k \<Longrightarrow> snd (index_tokens p ts url index) = None"
  by (induction ts arbitrary: p index) (auto simp: Let_def)

section \<open>The query resolver\<close>

text \<open>The documents of a positional entry; a categorical entry has no \<^verbatim>\<open>keys\<close>.\<close>

lemma search_tokens_eq:
  assumes "\<forall>t\<in>set ts. \<forall>m. index_dict t \<noteq> Some (ESet m)"
  shows "search_tokens results ts index_dict =
     Inr (if \<exists>t\<in>set ts. index_dict t = None then {}
      else case results of
             None \<Rightarrow> (if ts = [] then {}
                      else (\<Inter>t\<in>set ts. case index_dict t of Some (EDict p) \<Rightarrow> dom p | _ \<Rightarrow> {}))
           | Some r \<Rightarrow> r \<inter> (\<Inter>t\<in>set ts. case index_dict t of Some (EDict p) \<Rightarrow> dom p | _ \<Rightarrow> {}))"
  using assms
proof (induction ts arbitrary: results)
  case Nil
  then show ?case by (simp split: option.splits)
next
  case (Cons t ts)
  show ?case
  proof (cases "index_dict t")
    case None
    then show ?thesis by simp
  next
    case (Some e)
    with Cons.prems obtain p where p: "index_dict t = Some (EDict p)"
      by (cases e) auto
    from Cons.prems have rest: "\<forall>t\<in>set ts. \<forall>m. index_dict t \<noteq> Some (ESet m)" by simp
    show ?thesis
      by (cases results; cases "ts = []") (auto simp: p Cons.IH [OF rest] Let_def)
  qed
qed

section \<open>The stages of one product\<close>

lemma and_then_simps [simp]:
  "and_then (s, None) f = f s"
  "and_then (s, Some e) f = (s, Some e)"
  by (simp_all add: and_then_def)


lemma stage_title_frame:
  "description_index (fst (stage_title d url st)) = description_index st"
  "brand_index (fst (stage_title d url st)) = brand_index st"
  "origin_index (fst (stage_title d url st)) = origin_index st"
  "reviews_index (fst (stage_title d url st)) = reviews_index st"
  by (simp_all add: stage_title_def Let_def split: prod.splits)

lemma stage_description_frame:
  "title_index (fst (stage_description d url st)) = title_index st"
  "brand_index (fst (stage_description d url st)) = brand_index st"
  "origin_index (fst (stage_description d url st)) = origin_index st"
  "reviews_index (fst (stage_description d url st)) = reviews_index st"
  by (simp_all add: stage_description_def Let_def split: prod.splits)

lemma stage_brand_frame:
  "title_index (fst (stage_brand f url st)) = title_index st"
  "description_index (fst (stage_brand f url st)) = description_index st"
  "origin_index (fst (stage_brand f url st)) = origin_index st"
  "reviews_index (fst (stage_brand f url st)) = reviews_index st"
  by (simp_all add: stage_brand_def split: prod.splits)

lemma stage_origin_frame:
  "title_index (fst (stage_origin f url st)) = title_index st"
  "description_index (fst (stage_origin f url st)) = description_index st"
  "brand_index (fst (stage_origin f url st)) = brand_index st"
  "reviews_index (fst (stage_origin f url st)) = reviews_index st"
  by (simp_all add: stage_origin_def split: prod.splits)

lemma stage_reviews_frame:
  "title_index (fst (stage_reviews d url st)) = title_index st"
  "description_index (fst (stage_reviews d url st)) = description_index st"
  "brand_index (fst (stage_reviews d url st)) = brand_index st"
  "origin_index (fst (stage_reviews d url st)) = origin_index st"
  by (simp_all add: stage_reviews_def split: prod.splits)

lemmas stage_frames = stage_title_frame stage_description_frame stage_brand_frame
  stage_origin_frame stage_reviews_frame

text \<open>The state after a chain of stages keeps a component that every later stage keeps.\<close>

lemma and_then_frame:
  assumes "\<And>s. g (fst (f s)) = g s"
  shows "g (fst (and_then r f)) = g (fst r)"
  using assms by (cases r; cases "snd r") (auto simp: and_then_def split: option.splits)

lemma process_product_truthy:
  "truthy (py_get d ''url'' (JStr [])) \<Longrightarrow>
   process_product st (JObj d) =
     and_then (and_then (and_then (and_then
       (stage_title d (py_get d ''url'' (JStr [])) st)
       (stage_description d (py_get d ''url'' (JStr []))))
       (stage_brand (py_get d ''product_features'' (JObj [])) (py_get d ''url'' (JStr []))))
       (stage_origin (py_get d ''product_features'' (JObj [])) (py_get d ''url'' (JStr []))))
       (stage_reviews d (py_get d ''url'' (JStr [])))"
  by (simp add: process_product_def Let_def)

lemma process_product_title_index:
  assumes "truthy (py_get d ''url'' (JStr []))"
  shows "title_index (fst (process_product st (JObj d))) =
         title_index (fst (stage_title d (py_get d ''url'' (JStr [])) st))"
  unfolding process_product_truthy [OF assms]
  by (simp add: and_then_frame stage_frames)

lemma stage_title_alt:
  "stage_title d url st =
     (if truthy (py_get d ''title'' (JStr []))
      then (st\<lparr>title_index := fst (index_text (py_get d ''title'' (JStr [])) url (title_index st))\<rparr>,
            snd (index_text (py_get d ''title'' (JStr [])) url (title_index st)))
      else (st, None))"
  by (simp add: stage_title_def Let_def split: prod.splits)

lemma stage_description_alt:
  "stage_description d url st =
     (if truthy (py_get d ''description'' (JStr []))
      then (st\<lparr>description_index :=
                 fst (index_text (py_get d ''description'' (JStr [])) url (description_index st))\<rparr>,
            snd (index_text (py_get d ''description'' (JStr [])) url (description_index st)))
      else (st, None))"
  by (simp add: stage_description_def Let_def split: prod.splits)

lemma stage_brand_alt:
  "stage_brand f url st =
     (st\<lparr>brand_index := fst (index_feature ''brand'' f url (brand_index st))\<rparr>,
      snd (index_feature ''brand'' f url (brand_index st)))"
  by (simp add: stage_brand_def split: prod.splits)

lemma stage_origin_alt:
  "stage_origin f url st =
     (st\<lparr>origin_index := fst (index_feature ''made in'' f url (origin_index st))\<rparr>,
      snd (index_feature ''made in'' f url (origin_index st)))"
  by (simp add: stage_origin_def split: prod.splits)

lemma stage_reviews_alt:
  "stage_reviews d url st =
     (st\<lparr>reviews_index :=
           fst (store_reviews (py_get d ''product_reviews'' (JList [])) url (reviews_index st))\<rparr>,
      snd (store_reviews (py_get d ''product_reviews'' (JList [])) url (reviews_index st)))"
  by (simp add: stage_reviews_def split: prod.splits)


lemma stage_title_postings:
  assumes "key_of url = Some k" and "py_get d ''title'' (JStr []) = JStr raw"
    and "t \<in> set (tokenize raw)"
  shows "postings (title_index (fst (stage_title d url st))) t k =
         postings (title_index st) t k @ positions_of t (tokenize raw)"
proof -
  from assms(3) have ne: "t \<noteq> []" using tokenize_token [of t raw] by (auto simp: canonical_def)
  from assms(3) have "raw \<noteq> []" by (auto simp: tokenize_def py_lower_def re_sub_space_def py_split_def)
  then have "title_index (fst (stage_title d url st)) =
             fst (index_tokens 0 (tokenize raw) url (title_index st))"
    using assms(2) by (simp add: stage_title_alt index_text_def)
  then show ?thesis
    using index_tokens_postings [OF assms(1) ne, of 0 "tokenize raw" "title_index st"] by simp
qed



section \<open>Review statistics\<close>



lemma get_ratings_length: "get_ratings rs = Inr ratings \<Longrightarrow> length ratings = length rs"
  by (induction rs arbitrary: ratings) (auto split: json.splits sum.splits)








section \<open>A field that raises\<close>


section \<open>Whether a record raises does not depend on the state\<close>


lemma index_tokens_snd:
  "snd (index_tokens p ts url index) =
     (if key_of url = None \<and> (\<exists>t\<in>set ts. t \<noteq> []) then Some TypeError else None)"
  by (induction ts arbitrary: p index) (auto simp: Let_def split: option.splits)

lemma add_tokens_snd:
  "snd (add_tokens ts url index) =
     (if key_of url = None \<and> ts \<noteq> [] then Some TypeError else None)"
  by (induction ts arbitrary: index) (auto simp: Let_def split: option.splits)

lemma index_text_snd: "snd (index_text v url index) = snd (index_text v url index')"
  by (cases v) (simp_all add: index_text_def index_tokens_snd)

lemma index_feature_snd:
  "snd (index_feature name f url index) = snd (index_feature name f url index')"
  by (auto simp: index_feature_def add_tokens_snd split: sum.splits bool.splits json.splits)

lemma store_reviews_snd:
  "snd (store_reviews reviews url index) = snd (store_reviews reviews url index')"
  by (auto simp: store_reviews_def split: sum.splits option.splits)

lemma stage_snd:
  "snd (stage_title d url st) = snd (stage_title d url st')"
  "snd (stage_description d url st) = snd (stage_description d url st')"
  "snd (stage_brand f url st) = snd (stage_brand f url st')"
  "snd (stage_origin f url st) = snd (stage_origin f url st')"
  "snd (stage_reviews d url st) = snd (stage_reviews d url st')"
  using index_text_snd [of _ url "title_index st" "title_index st'"]
        index_text_snd [of _ url "description_index st" "description_index st'"]
        index_feature_snd [of _ f url "brand_index st" "brand_index st'"]
        index_feature_snd [of _ f url "origin_index st" "origin_index st'"]
        store_reviews_snd [of _ url "reviews_index st" "reviews_index st'"]
  by (simp_all add: stage_title_alt stage_description_alt stage_brand_alt stage_origin_alt
        stage_reviews_alt)

lemma and_then_snd:
  "snd (and_then r f) = (case snd r of None \<Rightarrow> snd (f (fst r)) | Some e \<Rightarrow> Some e)"
  by (cases r; cases "snd r") (auto simp: and_then_def)



section \<open>A record that raises nothing\<close>



section \<open>The pass, one line at a time\<close>

lemma process_lines_Some:
  "process_lines n (Some p # rest) st errors =
     process_lines (Suc n) rest (fst (process_product st p))
       (case snd (process_product st p) of None \<Rightarrow> errors | Some e \<Rightarrow> errors @ [(n, e)])"
  by (cases "process_product st p"; cases "snd (process_product st p)") auto

lemma process_lines_inv:
  assumes "P st" and "\<And>s p. P s \<Longrightarrow> P (fst (process_product s p))"
  shows "P (fst (process_lines n lines st errors))"
  using assms(1)
proof (induction lines arbitrary: n st errors)
  case Nil
  then show ?case by simp
next
  case (Cons line lines)
  show ?case
  proof (cases line)
    case None
    then show ?thesis using Cons by simp
  next
    case (Some p)
    show ?thesis
      unfolding Some process_lines_Some
      by (rule Cons.IH) (rule assms(2) [OF Cons.prems])
  qed
qed

section \<open>Review records and the documents that wrote them\<close>





section \<open>The keys of the indexes are tokens\<close>

lemma index_tokens_dom:
  "dom (fst (index_tokens p ts url index)) \<subseteq> dom index \<union> set ts"
proof (induction ts arbitrary: p index)
  case Nil
  then show ?case by simp
next
  case (Cons t ts)
  show ?case
  proof (cases "t = []")
    case True
    have "dom (fst (index_tokens p (t # ts) url index)) \<subseteq> dom index \<union> set ts"
      unfolding True by (simp add: Cons.IH)
    also have "\<dots> \<subseteq> dom index \<union> set (t # ts)" by auto
    finally show ?thesis .
  next
    case False
    show ?thesis
    proof (cases "key_of url")
      case None
      with False have "fst (index_tokens p (t # ts) url index) =
           index(t \<mapsto> case index t of None \<Rightarrow> Map.empty | Some m \<Rightarrow> m)"
        by (simp add: Let_def)
      then show ?thesis by auto
    next
      case (Some k)
      let ?urls = "case index t of None \<Rightarrow> Map.empty | Some m \<Rightarrow> m"
      let ?ps = "case ?urls k of None \<Rightarrow> [] | Some ps \<Rightarrow> ps"
      have step: "index_tokens p (t # ts) url index =
            index_tokens (Suc p) ts url (index(t \<mapsto> ?urls(k \<mapsto> ?ps @ [p])))"
        using False Some by (simp add: Let_def)
      have "dom (fst (index_tokens p (t # ts) url index))
              \<subseteq> dom (index(t \<mapsto> ?urls(k \<mapsto> ?ps @ [p]))) \<union> set ts"
        unfolding step by (rule Cons.IH)
      also have "\<dots> \<subseteq> dom index \<union> set (t # ts)" by auto
      finally show ?thesis .
    qed
  qed
qed

lemma add_tokens_dom:
  "dom (fst (add_tokens ts url index)) \<subseteq> dom index \<union> set ts"
proof (induction ts arbitrary: index)
  case Nil
  then show ?case by simp
next
  case (Cons t ts)
  show ?case
  proof (cases "key_of url")
    case None
    then have "fst (add_tokens (t # ts) url index) =
           index(t \<mapsto> case index t of None \<Rightarrow> {} | Some s \<Rightarrow> s)"
      by (simp add: Let_def)
    then show ?thesis by auto
  next
    case (Some k)
    let ?urls = "case index t of None \<Rightarrow> {} | Some s \<Rightarrow> s"
    have step: "add_tokens (t # ts) url index = add_tokens ts url (index(t \<mapsto> insert k ?urls))"
      using Some by (simp add: Let_def)
    have "dom (fst (add_tokens (t # ts) url index)) \<subseteq> dom (index(t \<mapsto> insert k ?urls)) \<union> set ts"
      unfolding step by (rule Cons.IH)
    also have "\<dots> \<subseteq> dom index \<union> set (t # ts)" by auto
    finally show ?thesis .
  qed
qed

lemma tokenize_normal: "set (tokenize s) \<subseteq> {t. canonical t \<and> t \<notin> STOPWORDS}"
  using tokenize_token by blast

lemma index_text_dom:
  "dom (fst (index_text v url index)) \<subseteq> dom index \<union> {t. canonical t \<and> t \<notin> STOPWORDS}"
proof (cases v)
  case (JStr s)
  show ?thesis
    unfolding JStr index_text_def
    using index_tokens_dom [of 0 "tokenize s" url index] tokenize_normal [of s] by auto
qed (simp_all add: index_text_def)

lemma index_feature_dom:
  "dom (fst (index_feature name f url index)) \<subseteq> dom index \<union> {t. canonical t \<and> t \<notin> STOPWORDS}"
proof -
  have "\<And>s. dom (fst (add_tokens (tokenize s) url index))
           \<subseteq> dom index \<union> {t. canonical t \<and> t \<notin> STOPWORDS}"
    using add_tokens_dom tokenize_normal by blast
  then show ?thesis
    by (auto simp: index_feature_def split: sum.splits bool.splits json.splits)
qed

lemma stage_keys:
  assumes "token_keys st \<subseteq> {t. canonical t \<and> t \<notin> STOPWORDS}"
  shows "token_keys (fst (stage_title d url st)) \<subseteq> {t. canonical t \<and> t \<notin> STOPWORDS}"
    and "token_keys (fst (stage_description d url st)) \<subseteq> {t. canonical t \<and> t \<notin> STOPWORDS}"
    and "token_keys (fst (stage_brand f url st)) \<subseteq> {t. canonical t \<and> t \<notin> STOPWORDS}"
    and "token_keys (fst (stage_origin f url st)) \<subseteq> {t. canonical t \<and> t \<notin> STOPWORDS}"
    and "token_keys (fst (stage_reviews d url st)) \<subseteq> {t. canonical t \<and> t \<notin> STOPWORDS}"
proof -
  show "token_keys (fst (stage_title d url st)) \<subseteq> {t. canonical t \<and> t \<notin> STOPWORDS}"
    using assms index_text_dom [of "py_get d ''title'' (JStr [])" url "title_index st"]
    unfolding token_keys_def stage_title_alt by (simp split: if_splits) blast+
  show "token_keys (fst (stage_description d url st)) \<subseteq> {t. canonical t \<and> t \<notin> STOPWORDS}"
    using assms index_text_dom [of "py_get d ''description'' (JStr [])" url "description_index st"]
    unfolding token_keys_def stage_description_alt by (simp split: if_splits) blast+
  show "token_keys (fst (stage_brand f url st)) \<subseteq> {t. canonical t \<and> t \<notin> STOPWORDS}"
    using assms index_feature_dom [of "''brand''" f url "brand_index st"]
    unfolding token_keys_def stage_brand_alt by simp blast
  show "token_keys (fst (stage_origin f url st)) \<subseteq> {t. canonical t \<and> t \<notin> STOPWORDS}"
    using assms index_feature_dom [of "''made in''" f url "origin_index st"]
    unfolding token_keys_def stage_origin_alt by simp blast
  show "token_keys (fst (stage_reviews d url st)) \<subseteq> {t. canonical t \<and> t \<notin> STOPWORDS}"
    using assms unfolding token_keys_def stage_reviews_alt by simp
qed

lemma and_then_inv:
  assumes "P (fst r)" and "\<And>s. P s \<Longrightarrow> P (fst (f s))"
  shows "P (fst (and_then r f))"
  using assms by (cases r; cases "snd r") (auto simp: and_then_def)

lemma process_product_keys:
  assumes "token_keys st \<subseteq> {t. canonical t \<and> t \<notin> STOPWORDS}"
  shows "token_keys (fst (process_product st p)) \<subseteq> {t. canonical t \<and> t \<notin> STOPWORDS}"
proof (cases p)
  case (JObj d)
  show ?thesis
  proof (cases "truthy (py_get d ''url'' (JStr []))")
    case True
    show ?thesis
      unfolding JObj process_product_truthy [OF True]
      by (intro and_then_inv [where P = "\<lambda>s. token_keys s \<subseteq> {t. canonical t \<and> t \<notin> STOPWORDS}"]
            stage_keys assms)
  next
    case False
    then show ?thesis using assms by (simp add: JObj process_product_def)
  qed
qed (use assms in \<open>simp_all add: process_product_def\<close>)

lemma process_jsonl_keys:
  "token_keys (fst (process_jsonl init_state lines)) \<subseteq> {t. canonical t \<and> t \<notin> STOPWORDS}"
  unfolding process_jsonl_def
proof (rule process_lines_inv [where P = "\<lambda>s. token_keys s \<subseteq> {t. canonical t \<and> t \<notin> STOPWORDS}"])
  show "token_keys init_state \<subseteq> {t. canonical t \<and> t \<notin> STOPWORDS}"
    by (simp add: token_keys_def init_state_def)
qed (rule process_product_keys)

section \<open>Adding to a categorical index\<close>

lemma add_tokens_Some:
  "key_of url = Some k \<Longrightarrow>
   add_tokens ts url index =
     ((\<lambda>t. if t \<in> set ts then Some (insert k (case index t of None \<Rightarrow> {} | Some s \<Rightarrow> s))
           else index t), None)"
proof (induction ts arbitrary: index)
  case Nil
  then show ?case by simp
next
  case (Cons t ts)
  let ?urls = "case index t of None \<Rightarrow> {} | Some s \<Rightarrow> s"
  have step: "add_tokens (t # ts) url index = add_tokens ts url (index(t \<mapsto> insert k ?urls))"
    using Cons.prems by (simp add: Let_def)
  show ?case
    unfolding step Cons.IH [OF Cons.prems]
    by (auto simp: fun_eq_iff)
qed

lemma add_tokens_None:
  "key_of url = None \<Longrightarrow>
   add_tokens ts url index =
     (case ts of [] \<Rightarrow> (index, None)
      | t # rest \<Rightarrow> (index(t \<mapsto> (case index t of None \<Rightarrow> {} | Some s \<Rightarrow> s)), Some TypeError))"
  by (cases ts) (simp_all add: Let_def)

lemma add_tokens_idem:
  "fst (add_tokens ts url (fst (add_tokens ts url index))) = fst (add_tokens ts url index)"
proof (cases "key_of url")
  case None
  show ?thesis
    unfolding add_tokens_None [OF None] by (cases ts) simp_all
next
  case (Some k)
  show ?thesis
    unfolding add_tokens_Some [OF Some] by (auto simp: fun_eq_iff)
qed

lemma index_feature_idem:
  "fst (index_feature name f url (fst (index_feature name f url index)))
     = fst (index_feature name f url index)"
  by (auto simp: index_feature_def add_tokens_idem split: sum.splits bool.splits json.splits)

lemma and_then_fst:
  "fst (and_then r f) = (case snd r of None \<Rightarrow> fst (f (fst r)) | Some e \<Rightarrow> fst r)"
  by (cases r; cases "snd r") (auto simp: and_then_def)

lemma process_product_brand_index:
  assumes "truthy (py_get d ''url'' (JStr []))"
  shows "brand_index (fst (process_product st (JObj d))) =
     (if snd (stage_title d (py_get d ''url'' (JStr [])) st) = None
         \<and> snd (stage_description d (py_get d ''url'' (JStr [])) st) = None
      then fst (index_feature ''brand'' (py_get d ''product_features'' (JObj []))
                  (py_get d ''url'' (JStr [])) (brand_index st))
      else brand_index st)"
proof -
  let ?url = "py_get d ''url'' (JStr [])"
  let ?f = "py_get d ''product_features'' (JObj [])"
  let ?r2 = "and_then (stage_title d ?url st) (stage_description d ?url)"
  have "brand_index (fst (process_product st (JObj d)))
        = brand_index (fst (and_then ?r2 (stage_brand ?f ?url)))"
    unfolding process_product_truthy [OF assms] by (simp add: and_then_frame stage_frames)
  also have "\<dots> = (case snd ?r2 of
       None \<Rightarrow> fst (index_feature ''brand'' ?f ?url (brand_index (fst ?r2)))
     | Some e \<Rightarrow> brand_index (fst ?r2))"
    by (simp add: and_then_fst stage_brand_alt split: option.splits)
  also have "brand_index (fst ?r2) = brand_index st"
    by (simp add: and_then_frame stage_frames)
  also have "snd ?r2 = (case snd (stage_title d ?url st) of
       None \<Rightarrow> snd (stage_description d ?url st) | Some e \<Rightarrow> Some e)"
    unfolding and_then_snd
    using stage_snd(2) [of d ?url "fst (stage_title d ?url st)" st] by (simp split: option.splits)
  finally show ?thesis by (auto split: option.splits)
qed

lemma process_product_origin_index:
  assumes "truthy (py_get d ''url'' (JStr []))"
  shows "origin_index (fst (process_product st (JObj d))) =
     (if snd (stage_title d (py_get d ''url'' (JStr [])) st) = None
         \<and> snd (stage_description d (py_get d ''url'' (JStr [])) st) = None
         \<and> snd (stage_brand (py_get d ''product_features'' (JObj []))
                  (py_get d ''url'' (JStr [])) st) = None
      then fst (index_feature ''made in'' (py_get d ''product_features'' (JObj []))
                  (py_get d ''url'' (JStr [])) (origin_index st))
      else origin_index st)"
proof -
  let ?url = "py_get d ''url'' (JStr [])"
  let ?f = "py_get d ''product_features'' (JObj [])"
  let ?r2 = "and_then (stage_title d ?url st) (stage_description d ?url)"
  let ?r3 = "and_then ?r2 (stage_brand ?f ?url)"
  have "origin_index (fst (process_product st (JObj d)))
        = origin_index (fst (and_then ?r3 (stage_origin ?f ?url)))"
    unfolding process_product_truthy [OF assms] by (simp add: and_then_frame stage_frames)
  also have "\<dots> = (case snd ?r3 of
       None \<Rightarrow> fst (index_feature ''made in'' ?f ?url (origin_index (fst ?r3)))
     | Some e \<Rightarrow> origin_index (fst ?r3))"
    by (simp add: and_then_fst stage_origin_alt split: option.splits)
  also have "origin_index (fst ?r3) = origin_index st"
    by (simp add: and_then_frame stage_frames)
  also have "snd ?r3 = (case snd ?r2 of
       None \<Rightarrow> snd (stage_brand ?f ?url st) | Some e \<Rightarrow> Some e)"
    unfolding and_then_snd [of ?r2]
    using stage_snd(3) [of ?f ?url "fst ?r2" st] by (simp split: option.splits)
  also have "snd ?r2 = (case snd (stage_title d ?url st) of
       None \<Rightarrow> snd (stage_description d ?url st) | Some e \<Rightarrow> Some e)"
    unfolding and_then_snd
    using stage_snd(2) [of d ?url "fst (stage_title d ?url st)" st] by (simp split: option.splits)
  finally show ?thesis by (auto split: option.splits)
qed

lemma process_product_no_url:
  "\<not> (\<exists>d. p = JObj d \<and> truthy (py_get d ''url'' (JStr []))) \<Longrightarrow> fst (process_product st p) = st"
  by (cases p) (auto simp: process_product_def Let_def)

lemma process_product_twice_brand:
  "brand_index (fst (process_product (fst (process_product st p)) p))
     = brand_index (fst (process_product st p))"
proof (cases "\<exists>d. p = JObj d \<and> truthy (py_get d ''url'' (JStr []))")
  case False
  then show ?thesis by (simp add: process_product_no_url)
next
  case True
  then obtain d where p: "p = JObj d" and tr: "truthy (py_get d ''url'' (JStr []))" by blast
  let ?st1 = "fst (process_product st (JObj d))"
  have s: "snd (stage_title d (py_get d ''url'' (JStr [])) ?st1)
             = snd (stage_title d (py_get d ''url'' (JStr [])) st)"
    "snd (stage_description d (py_get d ''url'' (JStr [])) ?st1)
             = snd (stage_description d (py_get d ''url'' (JStr [])) st)"
    by (rule stage_snd)+
  show ?thesis
    unfolding p process_product_brand_index [OF tr, of ?st1] s
    unfolding process_product_brand_index [OF tr, of st]
    by (simp add: index_feature_idem)
qed

lemma process_product_twice_origin:
  "origin_index (fst (process_product (fst (process_product st p)) p))
     = origin_index (fst (process_product st p))"
proof (cases "\<exists>d. p = JObj d \<and> truthy (py_get d ''url'' (JStr []))")
  case False
  then show ?thesis by (simp add: process_product_no_url)
next
  case True
  then obtain d where p: "p = JObj d" and tr: "truthy (py_get d ''url'' (JStr []))" by blast
  let ?st1 = "fst (process_product st (JObj d))"
  have s: "snd (stage_title d (py_get d ''url'' (JStr [])) ?st1)
             = snd (stage_title d (py_get d ''url'' (JStr [])) st)"
    "snd (stage_description d (py_get d ''url'' (JStr [])) ?st1)
             = snd (stage_description d (py_get d ''url'' (JStr [])) st)"
    "snd (stage_brand (py_get d ''product_features'' (JObj [])) (py_get d ''url'' (JStr [])) ?st1)
       = snd (stage_brand (py_get d ''product_features'' (JObj [])) (py_get d ''url'' (JStr [])) st)"
    by (rule stage_snd)+
  show ?thesis
    unfolding p process_product_origin_index [OF tr, of ?st1] s
    unfolding process_product_origin_index [OF tr, of st]
    by (simp add: index_feature_idem)
qed

section \<open>The claims\<close>

text \<open>
  Claim C1, restricted to positional indexes. For every query and every index whose
  entries for the tokens of the query are positional (a mapping from document to
  positions), \<open>search_title\<close> tokenizes the query with \<open>tokenize\<close>, the tokenizer of the
  index builder; it returns no document when the query has no token, and none when some
  token of the query is not a key of the index; otherwise it returns the documents that
  occur in the postings of every token of the query, their intersection. On a
  categorical entry (a set or list of documents) it raises \<^verbatim>\<open>AttributeError\<close> instead: so
  it does as soon as the first token of the query has such an entry.
\<close>

theorem search_title_and_semantics:
  "((\<forall>t\<in>set (tokenize query). \<forall>m. d t \<noteq> Some (ESet m)) \<longrightarrow>
      search_title query d =
        Inr (if tokenize query = [] then {}
             else if \<exists>t\<in>set (tokenize query). d t = None then {}
             else (\<Inter>t\<in>set (tokenize query). case d t of Some (EDict p) \<Rightarrow> dom p | _ \<Rightarrow> {})))
   \<and> (tokenize query = t # ts \<and> d t = Some (ESet m) \<longrightarrow>
      search_title query d = Inl AttributeError)"
proof (intro conjI impI)
  assume pos: "\<forall>t\<in>set (tokenize query). \<forall>m. d t \<noteq> Some (ESet m)"
  show "search_title query d =
        Inr (if tokenize query = [] then {}
             else if \<exists>t\<in>set (tokenize query). d t = None then {}
             else (\<Inter>t\<in>set (tokenize query). case d t of Some (EDict p) \<Rightarrow> dom p | _ \<Rightarrow> {}))"
  proof (cases "tokenize query = []")
    case True
    then show ?thesis by (simp add: search_title_def)
  next
    case False
    then have "search_title query d = search_tokens None (tokenize query) d"
      by (simp add: search_title_def)
    also have "\<dots> = Inr (if \<exists>t\<in>set (tokenize query). d t = None then {}
        else (\<Inter>t\<in>set (tokenize query). case d t of Some (EDict p) \<Rightarrow> dom p | _ \<Rightarrow> {}))"
      using False by (simp only: search_tokens_eq [OF pos] option.case if_False)
    finally show ?thesis using False by (simp only: if_False)
  qed
next
  assume "tokenize query = t # ts \<and> d t = Some (ESet m)"
  then show "search_title query d = Inl AttributeError"
    by (simp add: search_title_def)
qed

theorem search_title_and_semantics_witness:
  "search_title ''The widget of Acme''
     [''widget'' \<mapsto> EDict [''u1'' \<mapsto> [1::nat], ''u2'' \<mapsto> [1]], ''blue'' \<mapsto> EDict [''u1'' \<mapsto> [0]],
      ''acme'' \<mapsto> EDict [''u2'' \<mapsto> [0], ''u3'' \<mapsto> [2]]]
     = Inr {''u2''}
   \<and> search_title ''blue gadget''
     [''widget'' \<mapsto> EDict [''u1'' \<mapsto> [1::nat], ''u2'' \<mapsto> [1]], ''blue'' \<mapsto> EDict [''u1'' \<mapsto> [0]]]
     = Inr ({} :: string set)
   \<and> search_title ''the of''
     [''widget'' \<mapsto> EDict [''u1'' \<mapsto> [1::nat], ''u2'' \<mapsto> [1]]] = Inr ({} :: string set)
   \<and> search_title ''France, Italy''
     [''france'' \<mapsto> ESet {''u1''}, ''italy'' \<mapsto> (ESet {''u2''} :: (string, nat list) entry)]
     = Inl AttributeError"
proof -
  have t1: "tokenize ''The widget of Acme'' = [''widget'', ''acme'']" by code_simp
  have t2: "tokenize ''blue gadget'' = [''blue'', ''gadget'']" by code_simp
  have t3: "tokenize ''the of'' = []" by code_simp
  have t4: "tokenize ''France, Italy'' = [''france'', ''italy'']" by code_simp
  let ?d1 = "[''widget'' \<mapsto> EDict [''u1'' \<mapsto> [1::nat], ''u2'' \<mapsto> [1]], ''blue'' \<mapsto> EDict [''u1'' \<mapsto> [0]],
      ''acme'' \<mapsto> EDict [''u2'' \<mapsto> [0], ''u3'' \<mapsto> [2]]]"
  let ?d2 = "[''widget'' \<mapsto> EDict [''u1'' \<mapsto> [1::nat], ''u2'' \<mapsto> [1]], ''blue'' \<mapsto> EDict [''u1'' \<mapsto> [0]]]"
  let ?d3 = "[''widget'' \<mapsto> EDict [''u1'' \<mapsto> [1::nat], ''u2'' \<mapsto> [1]]]"
  let ?d4 = "[''france'' \<mapsto> ESet {''u1''}, ''italy'' \<mapsto> (ESet {''u2''} :: (string, nat list) entry)]"
  have "search_title ''The widget of Acme'' ?d1 = Inr {''u2''}"
    using search_title_and_semantics [of "''The widget of Acme''" ?d1, THEN conjunct1]
    unfolding t1 by auto
  moreover have "search_title ''blue gadget'' ?d2 = Inr {}"
    using search_title_and_semantics [of "''blue gadget''" ?d2, THEN conjunct1]
    unfolding t2 by auto
  moreover have "search_title ''the of'' ?d3 = Inr {}"
    using search_title_and_semantics [of "''the of''" ?d3, THEN conjunct1]
    unfolding t3 by auto
  moreover have "search_title ''France, Italy'' ?d4 = Inl AttributeError"
    using search_title_and_semantics [of "''France, Italy''" ?d4 "''france''" "[''italy'']" "{''u1''}",
            THEN conjunct2]
    unfolding t4 by simp
  ultimately show ?thesis by blast
qed

text \<open>
  The claim as it was stated covers every index, the categorical ones too. On the
  origin index of a document made in France the query \<^verbatim>\<open>france\<close> does not return the
  document: the entry of the token is a set, which has no \<^verbatim>\<open>keys\<close>.
\<close>

theorem search_title_categorical_raises:
  "search_title ''france'' [''france'' \<mapsto> (ESet {''u1''} :: (string, nat list) entry)]
     = Inl AttributeError
   \<and> search_title ''france'' [''france'' \<mapsto> (ESet {''u1''} :: (string, nat list) entry)]
     \<noteq> Inr {''u1''}"
proof -
  have "tokenize ''france'' = [''france'']" by code_simp
  then show ?thesis by (simp add: search_title_def)
qed

text \<open>
  Claim C2, with the number of stopwords corrected to 32. The tokenizer returns no token
  for the empty string and \<open>quick\<close>, \<open>fox\<close> for \<^verbatim>\<open>The Quick-Fox!\<close>; it gives a string and
  its lowercase form the same tokens; and in general it lowercases, replaces every
  character that is not an ASCII letter, a digit or whitespace by a space, splits on runs
  of whitespace (which leaves no empty fragment) and drops the stopwords, in order and
  with repetitions. The stopword set has 32 members.
\<close>

theorem tokenize_contract:
  "tokenize [] = []
   \<and> tokenize ''The Quick-Fox!'' = [''quick'', ''fox'']
   \<and> tokenize s = tokenize (py_lower s)
   \<and> tokenize ''FOO'' = tokenize ''foo''
   \<and> tokenize s =
       filter (\<lambda>t. t \<notin> STOPWORDS)
         (spec_split
           (map (\<lambda>c. if is_ascii_lower c \<or> is_ascii_digit c \<or> py_isspace c then c else CHR '' '')
             (py_lower s)))
   \<and> card STOPWORDS = 32"
proof -
  have "tokenize [] = []" by code_simp
  moreover have "tokenize ''The Quick-Fox!'' = [''quick'', ''fox'']" by code_simp
  moreover have "tokenize s = tokenize (py_lower s)" by (simp add: tokenize_lower)
  moreover have "tokenize ''FOO'' = tokenize ''foo''" by code_simp
  moreover have "tokenize s =
       filter (\<lambda>t. t \<notin> STOPWORDS)
         (spec_split
           (map (\<lambda>c. if is_ascii_lower c \<or> is_ascii_digit c \<or> py_isspace c then c else CHR '' '')
             (py_lower s)))"
    by (simp add: tokenize_spec py_lower_def)
  moreover have "card STOPWORDS = 32" by code_simp
  ultimately show ?thesis by blast
qed

theorem tokenize_contract_witness:
  "tokenize ''Red SHOE, the Red-Hat'' = tokenize (py_lower ''Red SHOE, the Red-Hat'')
   \<and> tokenize ''Red SHOE, the Red-Hat'' = [''red'', ''shoe'', ''red'', ''hat'']
   \<and> card STOPWORDS = 32"
proof -
  have "tokenize ''Red SHOE, the Red-Hat'' = [''red'', ''shoe'', ''red'', ''hat'']" by code_simp
  with tokenize_contract [of "''Red SHOE, the Red-Hat''"] show ?thesis by simp
qed

text \<open>The claim as it was stated counts 31 stopwords; the set of the source has 32.\<close>

theorem stopwords_are_not_31: "card STOPWORDS \<noteq> 31"
  by code_simp








text \<open>
  Claim C7. A record whose \<open>url\<close> is absent or the empty string is skipped: the five
  structures are as they were, no exception is raised, and the pass goes on to the next
  line without reporting anything.
\<close>

theorem url_missing_skips_document:
  assumes "map_of d ''url'' = None \<or> map_of d ''url'' = Some (JStr [])"
  shows "process_product st (JObj d) = (st, None) \<and>
         process_lines n (Some (JObj d) # rest) st errors = process_lines (Suc n) rest st errors"
proof -
  from assms have "\<not> truthy (py_get d ''url'' (JStr []))"
    by (auto simp: py_get_def)
  then have "process_product st (JObj d) = (st, None)"
    by (simp add: process_product_def)
  then show ?thesis by simp
qed

theorem url_missing_skips_document_witness:
  "process_product init_state (JObj [(''title'', JStr ''red shoe''), (''product_reviews'', JList [])])
     = (init_state, None)
   \<and> process_product init_state (JObj [(''url'', JStr []), (''title'', JStr ''red shoe'')])
     = (init_state, None)"
  using url_missing_skips_document [of "[(''title'', JStr ''red shoe''), (''product_reviews'', JList [])]" init_state 1 "[]" "[]"]
        url_missing_skips_document [of "[(''url'', JStr []), (''title'', JStr ''red shoe'')]" init_state 1 "[]" "[]"]
  by simp

text \<open>
  Claim C8. Tokenizing a token in canonical form (not empty, lowercase ASCII letters and
  digits only) gives the token itself, or nothing when it is a stopword. Every token key
  of the four indexes built by a pass over a file is not empty and tokenizes to itself.
\<close>

theorem tokenize_fixes_tokens:
  "(canonical t \<longrightarrow> tokenize t = (if t \<in> STOPWORDS then [] else [t]))
   \<and> (t \<in> token_keys (fst (process_jsonl init_state lines)) \<longrightarrow> t \<noteq> [] \<and> tokenize t = [t])"
proof (intro conjI impI)
  assume "canonical t"
  then show "tokenize t = (if t \<in> STOPWORDS then [] else [t])" by (rule tokenize_canonical)
next
  assume "t \<in> token_keys (fst (process_jsonl init_state lines))"
  with process_jsonl_keys [of lines] have c: "canonical t" and n: "t \<notin> STOPWORDS" by auto
  from c show "t \<noteq> []" by (simp add: canonical_def)
  from tokenize_canonical [OF c] n show "tokenize t = [t]" by simp
qed

theorem tokenize_fixes_tokens_witness:
  "tokenize ''widget42'' = [''widget42'']
   \<and> tokenize ''the'' = []
   \<and> ''blue'' \<in> token_keys (fst (process_jsonl init_state
        [Some (JObj [(''url'', JStr ''u1''), (''title'', JStr ''The Blue-Widget'')])]))
   \<and> tokenize ''blue'' = [''blue'']"
proof -
  let ?d = "[(''url'', JStr ''u1''), (''title'', JStr ''The Blue-Widget'')]"
  have c1: "canonical ''widget42''" by code_simp
  have n1: "''widget42'' \<notin> STOPWORDS" by code_simp
  have c2: "canonical ''the''" by code_simp
  have n2: "''the'' \<in> STOPWORDS" by code_simp
  have tt: "tokenize ''The Blue-Widget'' = [''blue'', ''widget'']" by code_simp
  have tr: "truthy (py_get ?d ''url'' (JStr []))" by (simp add: py_get_def)
  have key: "key_of (py_get ?d ''url'' (JStr [])) = Some (KStr ''u1'')" by (simp add: py_get_def)
  have ti: "py_get ?d ''title'' (JStr []) = JStr ''The Blue-Widget''" by (simp add: py_get_def)
  have "postings (title_index (fst (process_product init_state (JObj ?d)))) ''blue'' (KStr ''u1'')
        = postings (title_index init_state) ''blue'' (KStr ''u1'')
            @ positions_of ''blue'' (tokenize ''The Blue-Widget'')"
    unfolding process_product_title_index [OF tr]
    by (rule stage_title_postings [OF key ti]) (simp add: tt)
  also have "\<dots> = [0]"
    unfolding tt by (simp add: postings_def init_state_def positions_of_Cons) (simp add: positions_of_def)
  finally have "title_index (fst (process_product init_state (JObj ?d))) ''blue'' \<noteq> None"
    by (auto simp: postings_def split: option.splits)
  moreover have "fst (process_jsonl init_state [Some (JObj ?d)])
                 = fst (process_product init_state (JObj ?d))"
    unfolding process_jsonl_def process_lines_Some by simp
  ultimately have m: "''blue'' \<in> token_keys (fst (process_jsonl init_state [Some (JObj ?d)]))"
    by (auto simp: token_keys_def)
  from tokenize_fixes_tokens [of "''widget42''" "[]"] tokenize_fixes_tokens [of "''the''" "[]"]
       tokenize_fixes_tokens [of "''blue''" "[Some (JObj ?d)]"] c1 n1 c2 n2 m
  show ?thesis by simp
qed

text \<open>
  Claim C9. An entry of the brand index and of the origin index is a set of documents,
  so a document is in it or not, never twice. Adding a token for a url inserts the url
  into the entry of the token; adding the same pair again, any number of times, changes
  nothing. So ingesting a record a second time leaves the brand index and the origin
  index as the first time left them.
\<close>

theorem categorical_add_idempotent:
  "fst (add_tokens [token] url (fst (add_tokens [token] url index)))
     = fst (add_tokens [token] url index)
   \<and> ((\<lambda>i. fst (add_tokens [token] url i)) ^^ Suc n) index = fst (add_tokens [token] url index)
   \<and> (key_of url = Some k \<longrightarrow>
        fst (add_tokens [token] url index)
          = index(token \<mapsto> insert k (case index token of None \<Rightarrow> {} | Some s \<Rightarrow> s)))
   \<and> brand_index (fst (process_product (fst (process_product st p)) p))
       = brand_index (fst (process_product st p))
   \<and> origin_index (fst (process_product (fst (process_product st p)) p))
       = origin_index (fst (process_product st p))"
proof (intro conjI impI)
  show once: "fst (add_tokens [token] url (fst (add_tokens [token] url index)))
     = fst (add_tokens [token] url index)" for index
    by (rule add_tokens_idem)
  show "((\<lambda>i. fst (add_tokens [token] url i)) ^^ Suc n) index = fst (add_tokens [token] url index)"
  proof -
    define f where "f = (\<lambda>i. fst (add_tokens [token] url i))"
    have ff: "f (f i) = f i" for i unfolding f_def by (rule add_tokens_idem)
    have "(f ^^ Suc n) index = f index" by (induction n) (simp_all add: ff)
    then show ?thesis unfolding f_def .
  qed
  show "fst (add_tokens [token] url index)
          = index(token \<mapsto> insert k (case index token of None \<Rightarrow> {} | Some s \<Rightarrow> s))"
    if "key_of url = Some k"
    using that by (simp add: Let_def)
  show "brand_index (fst (process_product (fst (process_product st p)) p))
       = brand_index (fst (process_product st p))"
    by (rule process_product_twice_brand)
  show "origin_index (fst (process_product (fst (process_product st p)) p))
       = origin_index (fst (process_product st p))"
    by (rule process_product_twice_origin)
qed

theorem categorical_add_idempotent_witness:
  "fst (add_tokens [''acme''] (JStr ''u1'') [''acme'' \<mapsto> {KStr ''u1''}]) = [''acme'' \<mapsto> {KStr ''u1''}]
   \<and> fst (add_tokens [''acme''] (JStr ''u2'') [''acme'' \<mapsto> {KStr ''u1''}])
       = [''acme'' \<mapsto> {KStr ''u1'', KStr ''u2''}]
   \<and> ((\<lambda>i. fst (add_tokens [''acme''] (JStr ''u2'') i)) ^^ 3) [''acme'' \<mapsto> {KStr ''u1''}]
       = [''acme'' \<mapsto> {KStr ''u1'', KStr ''u2''}]"
proof -
  have a: "fst (add_tokens [''acme''] (JStr ''u1'') [''acme'' \<mapsto> {KStr ''u1''}])
             = [''acme'' \<mapsto> {KStr ''u1''}]"
    using categorical_add_idempotent [of "''acme''" "JStr ''u1''" "[''acme'' \<mapsto> {KStr ''u1''}]" 0
            "KStr ''u1''" init_state JNull]
    by simp
  have b: "fst (add_tokens [''acme''] (JStr ''u2'') [''acme'' \<mapsto> {KStr ''u1''}])
             = [''acme'' \<mapsto> {KStr ''u1'', KStr ''u2''}]"
    using categorical_add_idempotent [of "''acme''" "JStr ''u2''" "[''acme'' \<mapsto> {KStr ''u1''}]" 0
            "KStr ''u2''" init_state JNull]
    by (simp add: insert_commute)
  have c: "((\<lambda>i. fst (add_tokens [''acme''] (JStr ''u2'') i)) ^^ Suc 2) [''acme'' \<mapsto> {KStr ''u1''}]
             = fst (add_tokens [''acme''] (JStr ''u2'') [''acme'' \<mapsto> {KStr ''u1''}])"
    using categorical_add_idempotent [of "''acme''" "JStr ''u2''" "[''acme'' \<mapsto> {KStr ''u1''}]" 2
            "KStr ''u2''" init_state JNull]
    by blast
  have n: "(3::nat) = Suc 2" by simp
  show ?thesis unfolding n c unfolding a b by simp
qed

end
